theory Spec2Isabelle
  imports Complex_Main "HOL-Library.Sublist"
begin

section \<open>Snapbudget: the receipt parser of \<open>app.py\<close>\<close>

text \<open>
  The development embeds the text-processing part of \<open>upload_image\<close> and
  \<open>categorize\<close> from \<open>app.py\<close>.

  Conventions of the embedding.
  \<^item> A Python \<open>str\<close> is a \<open>string\<close>, a list of 8-bit characters read as the code
    points 0 to 255. The library functions \<open>str.lower\<close>, \<open>str.strip\<close> and the
    regular-expression classes \<open>\s\<close> and \<open>\d\<close> are given their Python meaning on
    that range.
  \<^item> A Python \<open>float\<close> is modelled by a rational number. \<open>float(s)\<close> gives the
    decimal value that \<open>s\<close> writes. The addition of two floats rounds, so the two
    additions of the loop (\<open>total += price\<close> and the sum kept for each category) are
    not the addition of rational numbers: they are a parameter \<open>fadd\<close> of the model,
    of which nothing is assumed, and every theorem holds for every \<open>fadd\<close>. The
    closed examples take \<open>(+)\<close> for it, on prices whose sums are exact in binary
    floating point.
  \<^item> \<open>float(...)\<close> raises \<open>ValueError\<close>; the model returns \<open>Inl ValueError\<close>.
  \<^item> The \<open>print\<close> calls of the parsing loop are recorded in the state, in order, so
    that the branch a line took can be read from the output.
\<close>

subsection \<open>Characters and strings\<close>

text \<open>\<open>str.isspace\<close> for one character, which is also the class \<open>\s\<close> of \<open>re\<close>.\<close>

definition isspace :: "char \<Rightarrow> bool" where
  "isspace c = (c \<in> set [CHR 0x09, CHR 0x0A, CHR 0x0B, CHR 0x0C, CHR 0x0D,
                          CHR 0x1C, CHR 0x1D, CHR 0x1E, CHR 0x1F, CHR 0x20,
                          CHR 0x85, CHR 0xA0])"

text \<open>The class \<open>\d\<close> of \<open>re\<close>.\<close>

definition isdigit :: "char \<Rightarrow> bool" where
  "isdigit c = (c \<in> set ''0123456789'')"

text \<open>\<open>str.lower\<close>: \<open>A\<close> to \<open>Z\<close> and the capital letters 0xC0 to 0xDE (0xD7, the
  multiplication sign, is not a letter) move up by 32.\<close>

definition lower_char :: "char \<Rightarrow> char" where
  "lower_char c =
     (let n = (of_char c :: nat)
      in if (65 \<le> n \<and> n \<le> 90) \<or> (192 \<le> n \<and> n \<le> 222 \<and> n \<noteq> 215)
         then char_of (n + 32) else c)"

definition lower :: "string \<Rightarrow> string" where
  "lower s = map lower_char s"

text \<open>\<open>str.strip()\<close>: drop the white space at both ends.\<close>

definition strip :: "string \<Rightarrow> string" where
  "strip s = rev (dropWhile isspace (rev (dropWhile isspace s)))"

text \<open>\<open>s.split(sep)\<close> for a one-character separator: never the empty list.\<close>

fun split :: "char \<Rightarrow> string \<Rightarrow> string list" where
  "split sep [] = [[]]"
| "split sep (x # xs) =
     (if x = sep then [] # split sep xs
      else (case split sep xs of
              [] \<Rightarrow> [[x]]
            | w # ws \<Rightarrow> (x # w) # ws))"

text \<open>\<open>w in s\<close> on strings is \<^const>\<open>sublist\<close>; \<open>s.replace(',', '')\<close> is a filter.\<close>

definition remove_commas :: "string \<Rightarrow> string" where
  "remove_commas s = filter (\<lambda>c. c \<noteq> CHR '','') s"

subsection \<open>Regular expressions\<close>

text \<open>
  The two patterns of the program use character classes, sequence, alternation, greedy
  \<open>?\<close>, \<open>*\<close> and \<open>+\<close> and lazy \<open>+?\<close> on single classes, capture groups and \<open>$\<close>.
  \<open>re\<close> matches by backtracking: it returns the first complete match in the order in
  which the alternatives are tried. \<open>rx r (caps, s)\<close> lists every way for \<open>r\<close> to match
  at the front of \<open>s\<close>, in that order, with the groups captured and the text left.
\<close>

datatype regex =
    Cls "char \<Rightarrow> bool"
  | Seq regex regex
  | Alt regex regex
  | Opt regex
  | Star "char \<Rightarrow> bool"
  | Plus "char \<Rightarrow> bool"
  | PlusLazy "char \<Rightarrow> bool"
  | Group nat regex
  | Eol

type_synonym captures = "(nat \<times> string) list"

definition run_len :: "(char \<Rightarrow> bool) \<Rightarrow> string \<Rightarrow> nat" where
  "run_len p s = length (takeWhile p s)"

fun rx :: "regex \<Rightarrow> captures \<times> string \<Rightarrow> (captures \<times> string) list" where
  "rx (Cls p) (c, s) =
     (case s of [] \<Rightarrow> [] | x # xs \<Rightarrow> if p x then [(c, xs)] else [])"
| "rx (Seq a b) cs = concat (map (rx b) (rx a cs))"
| "rx (Alt a b) cs = rx a cs @ rx b cs"
| "rx (Opt a) cs = rx a cs @ [cs]"
| "rx (Star p) (c, s) = map (\<lambda>k. (c, drop k s)) (rev [0..<Suc (run_len p s)])"
| "rx (Plus p) (c, s) = map (\<lambda>k. (c, drop k s)) (rev [1..<Suc (run_len p s)])"
| "rx (PlusLazy p) (c, s) = map (\<lambda>k. (c, drop k s)) [1..<Suc (run_len p s)]"
| "rx (Group n a) (c, s) =
     map (\<lambda>(c', r). ((n, take (length s - length r) s) # c', r)) (rx a (c, s))"
| "rx Eol (c, s) = (if s = [] \<or> s = [CHR 0x0A] then [(c, s)] else [])"

text \<open>A literal word is the sequence of its characters.\<close>

fun Lit :: "string \<Rightarrow> regex" where
  "Lit [] = Opt (Cls (\<lambda>c. False))"
| "Lit [x] = Cls (\<lambda>c. c = x)"
| "Lit (x # xs) = Seq (Cls (\<lambda>c. c = x)) (Lit xs)"

text \<open>\<open>re.match\<close>: the first match at the start of the string, if any.\<close>

definition re_match :: "regex \<Rightarrow> string \<Rightarrow> captures option" where
  "re_match r s = (case rx r ([], s) of [] \<Rightarrow> None | (c, rest) # others \<Rightarrow> Some c)"

text \<open>\<open>re.search\<close>: the first match at the leftmost position that has one.\<close>

fun re_search :: "regex \<Rightarrow> string \<Rightarrow> captures option" where
  "re_search r [] = re_match r []"
| "re_search r (x # xs) =
     (case re_match r (x # xs) of Some c \<Rightarrow> Some c | None \<Rightarrow> re_search r xs)"

text \<open>\<open>m.group(n)\<close> for a group that took part in the match.\<close>

definition group :: "captures \<Rightarrow> nat \<Rightarrow> string" where
  "group c n = (case map_of c n of Some s \<Rightarrow> s | None \<Rightarrow> [])"

text \<open>
  The separator class of both patterns is written with the rupee sign, which the source
  file holds as the three characters U+00E2, U+201A and U+00B9. U+201A is not an 8-bit
  character, so it is no member of a line of this model.
\<close>

definition rupee :: "char \<Rightarrow> bool" where
  "rupee c = (c = CHR 0xE2 \<or> c = CHR 0xB9)"

definition token_re :: regex where
  "token_re =
     Seq (Plus (\<lambda>c. isdigit c \<or> c = CHR '',''))
         (Opt (Seq (Cls (\<lambda>c. c = CHR ''.'')) (Seq (Cls isdigit) (Opt (Cls isdigit)))))"

text \<open>\<^verbatim>\<open>(.+?)\s*[\.:<rupee>\s]?[,\s]*([\d,]+(?:\.\d{1,2})?)$\<close>\<close>

definition item_re :: regex where
  "item_re =
     Seq (Group 1 (PlusLazy (\<lambda>c. c \<noteq> CHR 0x0A)))
    (Seq (Star isspace)
    (Seq (Opt (Cls (\<lambda>c. c = CHR ''.'' \<or> c = CHR '':'' \<or> rupee c \<or> isspace c)))
    (Seq (Star (\<lambda>c. c = CHR '','' \<or> isspace c))
    (Seq (Group 2 token_re)
         Eol))))"

text \<open>\<^verbatim>\<open>(?:total|sum|amt|balance)\s*[:<rupee>]?\s*([\d,]+(?:\.\d{1,2})?)$\<close>\<close>

definition total_re :: regex where
  "total_re =
     Seq (Alt (Lit ''total'') (Alt (Lit ''sum'') (Alt (Lit ''amt'') (Lit ''balance''))))
    (Seq (Star isspace)
    (Seq (Opt (Cls (\<lambda>c. c = CHR '':'' \<or> rupee c)))
    (Seq (Star isspace)
    (Seq (Group 1 token_re)
         Eol))))"

subsection \<open>\<open>float\<close> on a decimal numeral\<close>

datatype error = ValueError | TypeError

text \<open>The value of a string of decimal digits.\<close>

definition digits_val :: "string \<Rightarrow> int" where
  "digits_val s = foldl (\<lambda>a c. 10 * a + (of_char c - 48)) 0 s"

text \<open>
  \<open>float(s)\<close> for the strings the program passes to it, which hold digits and dots only:
  digits with at most one dot and at least one digit are read as a decimal fraction;
  the empty string, a lone dot and every other string raise \<open>ValueError\<close>.
\<close>

definition float_py :: "string \<Rightarrow> error + rat" where
  "float_py s =
     (let ip = takeWhile isdigit s
      in case dropWhile isdigit s of
           [] \<Rightarrow> if ip = [] then Inl ValueError else Inr (of_int (digits_val ip))
         | d # fp \<Rightarrow>
             if d = CHR ''.'' \<and> list_all isdigit fp \<and> (ip \<noteq> [] \<or> fp \<noteq> [])
             then Inr (of_int (digits_val (ip @ fp)) / 10 ^ length fp)
             else Inl ValueError)"

subsection \<open>\<open>categorize\<close>\<close>

text \<open>\<open>any(k in name for k in ks)\<close>\<close>

definition any_in :: "string list \<Rightarrow> string \<Rightarrow> bool" where
  "any_in ks s = list_ex (\<lambda>k. sublist k s) ks"

definition categorize :: "string \<Rightarrow> string" where
  "categorize nm =
     (let s = lower nm
      in if any_in [''milk'', ''rice'', ''dal'', ''bread'', ''oil'', ''eggs'', ''vegetable'',
                    ''atta'', ''flour'', ''sugar'', ''salt''] s
         then ''Essentials''
         else if any_in [''chocolate'', ''biscuit'', ''lays'', ''snack'', ''chips'',
                         ''cold drink'', ''soda'', ''candy'', ''cookies''] s
         then ''Snacks''
         else if any_in [''shirt'', ''jeans'', ''shoe'', ''sandal'', ''dress'', ''trousers'',
                         ''jacket'', ''tshirt'', ''socks''] s
         then ''Clothing''
         else if any_in [''usb'', ''charger'', ''headphone'', ''phone'', ''mouse'',
                         ''keyboard'', ''laptop'', ''tablet'', ''speaker''] s
         then ''Electronics''
         else if any_in [''medicine'', ''pharmacy'', ''pill'', ''bandage''] s
         then ''Health''
         else if any_in [''restaurant'', ''cafe'', ''food'', ''dinner'', ''lunch'',
                         ''breakfast'', ''pizza'', ''burger''] s
         then ''Dining Out''
         else if any_in [''fuel'', ''petrol'', ''diesel'', ''gas'', ''transport''] s
         then ''Transport''
         else if any_in [''electricity'', ''water'', ''internet'', ''rent''] s
         then ''Utilities''
         else ''Other'')"

subsection \<open>The parsing loop of \<open>upload_image\<close>\<close>

text \<open>The addition of two floats, a parameter of the loop.\<close>

type_synonym float_add = "rat \<Rightarrow> rat \<Rightarrow> rat"

record item =
  name :: string
  price :: rat

text \<open>What the loop prints, one constructor for each \<open>print\<close> call in it.\<close>

datatype event =
    PriceParseFail string string
  | Overriding rat
  | SettingTotal rat
  | TotalParseFail string
  | NoItemMatch string

text \<open>The local variables of the loop, and its output.\<close>

record state =
  items :: "item list"
  total :: rat
  category_totals :: "(string \<times> rat) list"
  printed :: "event list"

definition print :: "event \<Rightarrow> state \<Rightarrow> state" where
  "print e st = st\<lparr>printed := printed st @ [e]\<rparr>"

text \<open>A \<open>dict\<close> keeps its keys in the order of their first insertion.\<close>

definition dict_get :: "('k \<times> 'v) list \<Rightarrow> 'k \<Rightarrow> 'v \<Rightarrow> 'v" where
  "dict_get d k dflt = (case map_of d k of Some v \<Rightarrow> v | None \<Rightarrow> dflt)"

fun dict_set :: "('k \<times> 'v) list \<Rightarrow> 'k \<Rightarrow> 'v \<Rightarrow> ('k \<times> 'v) list" where
  "dict_set [] k v = [(k, v)]"
| "dict_set ((k', v') # d) k v =
     (if k' = k then (k, v) # d else (k', v') # dict_set d k v)"

definition exclude_words :: "string list" where
  "exclude_words =
     [''gst'', ''total'', ''invoice'', ''bill'', ''phone'', ''contact'', ''care'', ''amount'',
      ''tax'', ''subtotal'', ''discount'', ''change'', ''cash'', ''card'', ''visa'',
      ''mastercard'', ''qty'', ''quantity'', ''rate'', ''price'', ''item'', ''description'',
      ''unit'']"

text \<open>The body of \<open>if match:\<close>, lines 218 to 229.\<close>

definition item_branch :: "float_add \<Rightarrow> state \<Rightarrow> string \<Rightarrow> captures \<Rightarrow> error + state" where
  "item_branch fadd st line m =
     (let nm = strip (group m 1);
          price_str = remove_commas (group m 2)
      in case float_py price_str of
           Inr pr \<Rightarrow>
             if 1 / 100 \<le> pr \<and> pr \<le> 100000
             then (let cat = categorize nm
                   in Inr (st\<lparr>items := items st @ [\<lparr>name = nm, price = pr\<rparr>],
                              total := fadd (total st) pr,
                              category_totals :=
                                dict_set (category_totals st) cat
                                  (fadd (dict_get (category_totals st) cat 0) pr)\<rparr>))
             else Inr st
         | Inl e \<Rightarrow>
             if e = ValueError then Inr (print (PriceParseFail line price_str) st)
             else Inl e)"

text \<open>The body of \<open>else:\<close>, lines 231 to 247.\<close>

definition total_branch :: "state \<Rightarrow> string \<Rightarrow> error + state" where
  "total_branch st line =
     (case re_search total_re (lower line) of
        Some total_match \<Rightarrow>
          (case float_py (remove_commas (group total_match 1)) of
             Inr extracted_total \<Rightarrow>
               if extracted_total > 0 \<and> \<bar>extracted_total - total st\<bar> < 100
               then Inr (print (NoItemMatch line)
                          (print (Overriding extracted_total)
                            (st\<lparr>total := extracted_total\<rparr>)))
               else if total st = 0 \<and> extracted_total > 0
               then Inr (print (NoItemMatch line)
                          (print (SettingTotal extracted_total)
                            (st\<lparr>total := extracted_total\<rparr>)))
               else Inr (print (NoItemMatch line) st)
           | Inl e \<Rightarrow>
               if e = ValueError
               then Inr (print (NoItemMatch line) (print (TotalParseFail line) st))
               else Inl e)
      | None \<Rightarrow> Inr (print (NoItemMatch line) st))"

text \<open>One turn of \<open>for line in lines:\<close>, lines 208 to 247.\<close>

definition process_line :: "float_add \<Rightarrow> state \<Rightarrow> string \<Rightarrow> error + state" where
  "process_line fadd st raw_line =
     (let line = strip raw_line
      in if line = [] \<or> list_ex (\<lambda>word. sublist word (lower line)) exclude_words
         then Inr st
         else case re_match item_re line of
                Some m \<Rightarrow> item_branch fadd st line m
              | None \<Rightarrow> total_branch st line)"

fun process_lines :: "float_add \<Rightarrow> state \<Rightarrow> string list \<Rightarrow> error + state" where
  "process_lines fadd st [] = Inr st"
| "process_lines fadd st (l # ls) =
     (case process_line fadd st l of
        Inl e \<Rightarrow> Inl e
      | Inr st' \<Rightarrow> process_lines fadd st' ls)"

definition init_state :: state where
  "init_state = \<lparr>items = [], total = 0, category_totals = [], printed = []\<rparr>"

text \<open>Lines 200 to 247: the loop over \<open>extracted_text.strip().split('\n')\<close>.\<close>

definition parse_text :: "float_add \<Rightarrow> string \<Rightarrow> error + state" where
  "parse_text fadd extracted_text =
     process_lines fadd init_state (split (CHR 0x0A) (strip extracted_text))"

subsection \<open>The savings tip and the result\<close>

text \<open>The seven tip texts; the high-spend text carries the total it prints.\<close>

datatype tip =
    Balanced
  | NoData
  | ElectronicsTip
  | SnacksTip
  | NoEssentials
  | GoodBudget
  | HighSpend rat

text \<open>Lines 250 to 269.\<close>

definition savings_tip_of :: "item list \<Rightarrow> (string \<times> rat) list \<Rightarrow> rat \<Rightarrow> tip" where
  "savings_tip_of its cts tot =
     (let essentials = filter (\<lambda>i. categorize (name i) = ''Essentials'') its;
          snacks = filter (\<lambda>i. categorize (name i) = ''Snacks'') its;
          electronics_total = dict_get cts ''Electronics'' 0
      in if tot = 0 then NoData
         else if electronics_total > 1500 then ElectronicsTip
         else if length snacks \<ge> 3 then SnacksTip
         else if essentials = [] \<and> tot > 0 then NoEssentials
         else if 0 < tot \<and> tot < 500 then GoodBudget
         else if tot > 2500 then HighSpend tot
         else Balanced)"

record receipt =
  username :: string
  timestamp :: string
  receipt_items :: "item list"
  receipt_total :: rat
  category_breakdown :: "(string \<times> rat) list"
  savings_tip :: tip
  image_url :: string

text \<open>
  Lines 200 to 279 of \<open>upload_image\<close>, from the text the OCR returned to the result. The
  clock reading and the image URL are inputs. An exception that leaves the loop is the
  error of the whole.
\<close>

definition upload_image :: "float_add \<Rightarrow> string \<Rightarrow> string \<Rightarrow> string \<Rightarrow> error + receipt" where
  "upload_image fadd extracted_text now url =
     (case parse_text fadd extracted_text of
        Inl e \<Rightarrow> Inl e
      | Inr st \<Rightarrow>
          Inr \<lparr>username = ''madhu'',
               timestamp = now,
               receipt_items = items st,
               receipt_total = total st,
               category_breakdown = category_totals st,
               savings_tip = savings_tip_of (items st) (category_totals st) (total st),
               image_url = url\<rparr>)"

subsection \<open>The specification's wording of the categorizer and of the tip rules\<close>






subsection \<open>Notions used in the proofs\<close>

text \<open>
  The text that \<^const>\<open>token_re\<close> matches: a non-empty run of digits and commas, then
  nothing, or a dot and one or two digits.
\<close>

definition token_char :: "char \<Rightarrow> bool" where
  "token_char c = (isdigit c \<or> c = CHR '','')"

fun is_frac :: "string \<Rightarrow> bool" where
  "is_frac [] = True"
| "is_frac [a, d] = (a = CHR ''.'' \<and> isdigit d)"
| "is_frac [a, d, e] = (a = CHR ''.'' \<and> isdigit d \<and> isdigit e)"
| "is_frac fr = False"

definition is_token :: "string \<Rightarrow> bool" where
  "is_token t = (takeWhile token_char t \<noteq> [] \<and> is_frac (dropWhile token_char t))"

text \<open>The output of the three \<open>print\<close> calls inside \<open>if total_match:\<close>.\<close>

fun is_total_event :: "event \<Rightarrow> bool" where
  "is_total_event (Overriding v) = True"
| "is_total_event (SettingTotal v) = True"
| "is_total_event (TotalParseFail l) = True"
| "is_total_event e = False"

definition price_ok :: "item \<Rightarrow> bool" where
  "price_ok i = (1 / 100 \<le> price i \<and> price i \<le> 100000)"

text \<open>What every turn of the loop keeps true of its variables.\<close>

definition loop_inv :: "float_add \<Rightarrow> state \<Rightarrow> bool" where
  "loop_inv fadd st =
     (list_all price_ok (items st) \<and> total st = foldl fadd 0 (map price (items st))
             \<and> \<not> list_ex is_total_event (printed st))"

section \<open>Properties\<close>

subsection \<open>The matches of a pattern as a set\<close>

lemma run_len_prefix:
  "(\<exists>k. m \<le> k \<and> k \<le> run_len p s \<and> r = drop k s) =
   (\<exists>u. s = u @ r \<and> m \<le> length u \<and> list_all p u)"
proof
  assume "\<exists>k. m \<le> k \<and> k \<le> run_len p s \<and> r = drop k s"
  then obtain k where m: "m \<le> k" and k: "k \<le> length (takeWhile p s)" and r: "r = drop k s"
    by (auto simp: run_len_def)
  have ks: "k \<le> length s"
    using k length_takeWhile_le [of p s] by simp
  have "s = takeWhile p s @ dropWhile p s" by simp
  then have "take k s = take k (takeWhile p s)"
    using k by (metis take_append diff_is_0_eq take_0 append_Nil2)
  then have "set (take k s) \<subseteq> set (takeWhile p s)"
    by (metis set_take_subset)
  then have "list_all p (take k s)"
    by (auto simp: list_all_iff dest: set_takeWhileD)
  with r m ks show "\<exists>u. s = u @ r \<and> m \<le> length u \<and> list_all p u"
    by (intro exI [of _ "take k s"]) simp
next
  assume "\<exists>u. s = u @ r \<and> m \<le> length u \<and> list_all p u"
  then obtain u where s: "s = u @ r" and m: "m \<le> length u" and u: "list_all p u" by blast
  have "takeWhile p s = u @ takeWhile p r"
    using s u by (simp add: list_all_iff)
  then have "length u \<le> run_len p s" by (simp add: run_len_def)
  moreover have "r = drop (length u) s" using s by simp
  ultimately show "\<exists>k. m \<le> k \<and> k \<le> run_len p s \<and> r = drop k s" using m by blast
qed

lemma in_drops:
  "((c', r) \<in> set (map (\<lambda>k. (c, drop k s)) (rev [m..<Suc n]))) =
   (c' = c \<and> (\<exists>k. m \<le> k \<and> k \<le> n \<and> r = drop k s))"
  by (auto simp: less_Suc_eq_le)

lemma in_rx_Cls:
  "((c', r) \<in> set (rx (Cls p) (c, s))) = (c' = c \<and> (\<exists>x. s = x # r \<and> p x))"
  by (cases s) auto

lemma in_rx_Seq:
  "((c', r) \<in> set (rx (Seq a b) (c, s))) =
   (\<exists>c1 r1. (c1, r1) \<in> set (rx a (c, s)) \<and> (c', r) \<in> set (rx b (c1, r1)))"
  by auto

lemma in_rx_Alt:
  "((c', r) \<in> set (rx (Alt a b) (c, s))) =
   ((c', r) \<in> set (rx a (c, s)) \<or> (c', r) \<in> set (rx b (c, s)))"
  by simp

lemma in_rx_Opt:
  "((c', r) \<in> set (rx (Opt a) (c, s))) = ((c', r) \<in> set (rx a (c, s)) \<or> (c' = c \<and> r = s))"
  by auto

lemma in_rx_Star:
  "((c', r) \<in> set (rx (Star p) (c, s))) = (c' = c \<and> (\<exists>u. s = u @ r \<and> list_all p u))"
proof -
  have "((c', r) \<in> set (rx (Star p) (c, s))) =
        (c' = c \<and> (\<exists>k. 0 \<le> k \<and> k \<le> run_len p s \<and> r = drop k s))"
    unfolding rx.simps by (rule in_drops)
  then show ?thesis by (simp only: run_len_prefix) simp
qed

lemma in_rx_Plus:
  "((c', r) \<in> set (rx (Plus p) (c, s))) =
   (c' = c \<and> (\<exists>u. s = u @ r \<and> u \<noteq> [] \<and> list_all p u))"
proof -
  have "((c', r) \<in> set (rx (Plus p) (c, s))) =
        (c' = c \<and> (\<exists>k. 1 \<le> k \<and> k \<le> run_len p s \<and> r = drop k s))"
    unfolding rx.simps by (rule in_drops)
  also have "\<dots> = (c' = c \<and> (\<exists>u. s = u @ r \<and> 1 \<le> length u \<and> list_all p u))"
    by (simp only: run_len_prefix)
  also have "\<dots> = (c' = c \<and> (\<exists>u. s = u @ r \<and> u \<noteq> [] \<and> list_all p u))"
    by (simp add: Suc_le_eq)
  finally show ?thesis .
qed

lemma in_rx_PlusLazy:
  "((c', r) \<in> set (rx (PlusLazy p) (c, s))) =
   (c' = c \<and> (\<exists>u. s = u @ r \<and> u \<noteq> [] \<and> list_all p u))"
proof -
  have "set (rx (PlusLazy p) (c, s)) = set (rx (Plus p) (c, s))" by simp
  then show ?thesis by (simp only: in_rx_Plus)
qed

lemma in_rx_Eol:
  "((c', r) \<in> set (rx Eol (c, s))) = (c' = c \<and> r = s \<and> (s = [] \<or> s = [CHR 0x0A]))"
  by auto

lemma rx_suffix:
  "(c', r) \<in> set (rx a (c, s)) \<Longrightarrow> \<exists>u. s = u @ r"
proof (induction a arbitrary: c s c' r)
  case (Seq a b)
  then obtain c1 r1 where "(c1, r1) \<in> set (rx a (c, s))" "(c', r) \<in> set (rx b (c1, r1))"
    by (auto simp: in_rx_Seq)
  with Seq.IH show ?case by (metis append.assoc)
next
  case (Opt a)
  then show ?case by (auto simp: in_rx_Opt)
next
  case (Group n a)
  then show ?case by auto
next
  case (Alt a b)
  then show ?case by (auto simp: in_rx_Alt)
next
  case Eol
  then show ?case by (auto simp: in_rx_Eol)
qed (auto simp: in_rx_Cls in_rx_Star in_rx_Plus in_rx_PlusLazy simp del: rx.simps)

lemma in_rx_Group:
  "((c', r) \<in> set (rx (Group n a) (c, s))) =
   (\<exists>c0 u. (c0, r) \<in> set (rx a (c, s)) \<and> s = u @ r \<and> c' = (n, u) # c0)"
proof
  assume "(c', r) \<in> set (rx (Group n a) (c, s))"
  then obtain c0 where c0: "(c0, r) \<in> set (rx a (c, s))"
    and c': "c' = (n, take (length s - length r) s) # c0" by auto
  from rx_suffix [OF c0] obtain u where "s = u @ r" by blast
  with c0 c' show "\<exists>c0 u. (c0, r) \<in> set (rx a (c, s)) \<and> s = u @ r \<and> c' = (n, u) # c0"
    by auto
next
  assume "\<exists>c0 u. (c0, r) \<in> set (rx a (c, s)) \<and> s = u @ r \<and> c' = (n, u) # c0"
  then show "(c', r) \<in> set (rx (Group n a) (c, s))" by force
qed

lemma in_rx_Lit:
  "(c', r) \<in> set (rx (Lit w) (c, s)) \<Longrightarrow> c' = c \<and> s = w @ r"
  by (induction w arbitrary: s rule: Lit.induct) (auto simp: in_rx_Cls in_rx_Seq in_rx_Opt simp del: rx.simps)

lemmas in_rx = in_rx_Cls in_rx_Seq in_rx_Alt in_rx_Opt in_rx_Star in_rx_Plus in_rx_PlusLazy
  in_rx_Eol in_rx_Group

lemma re_match_Some: "re_match r s = Some c \<Longrightarrow> \<exists>rest. (c, rest) \<in> set (rx r ([], s))"
  by (auto simp: re_match_def split: list.splits)

lemma re_match_None: "(re_match r s = None) = (set (rx r ([], s)) = {})"
  by (auto simp: re_match_def split: list.splits)

lemma re_search_Some:
  "re_search r s = Some c \<Longrightarrow> \<exists>p q. s = p @ q \<and> re_match r q = Some c"
proof (induction s)
  case Nil
  then show ?case by simp
next
  case (Cons x xs)
  show ?case
  proof (cases "re_match r (x # xs)")
    case None
    with Cons obtain p q where "xs = p @ q" "re_match r q = Some c" by auto
    then show ?thesis by (intro exI [of _ "x # p"] exI [of _ q]) simp
  next
    case (Some a)
    with Cons.prems show ?thesis by (intro exI [of _ "[]"] exI [of _ "x # xs"]) simp
  qed
qed

subsection \<open>Character classes and \<open>lower\<close>\<close>

lemma isdigit_code: "isdigit c \<Longrightarrow> 48 \<le> (of_char c :: nat) \<and> (of_char c :: nat) \<le> 57"
  by (auto simp: isdigit_def)

lemma isspace_code:
  "isspace c = ((of_char c :: nat) \<in> {9, 10, 11, 12, 13, 28, 29, 30, 31, 32, 133, 160})"
proof -
  have "\<And>k. (c = char_of (k::nat)) = (of_char c = k mod 256)"
    by (metis of_char_of char_of_char)
  hence e: "\<And>d. (c = d) = ((of_char c :: nat) = of_char d)" by auto
  show ?thesis unfolding isspace_def by (simp add: e)
qed

lemma lower_char_low: "(of_char (lower_char c) :: nat) < 97 \<Longrightarrow> lower_char c = c"
  by (auto simp: lower_char_def Let_def)

lemma lower_char_cases:
  "lower_char c = c \<or> (97 \<le> (of_char (lower_char c) :: nat) \<and> (of_char (lower_char c) :: nat) \<le> 122)
     \<or> (224 \<le> (of_char (lower_char c) :: nat) \<and> (of_char (lower_char c) :: nat) \<le> 254)"
  by (auto simp: lower_char_def Let_def)

lemma lower_char_fix: "(of_char c :: nat) < 65 \<or> (90 < (of_char c :: nat) \<and> (of_char c :: nat) < 192) \<Longrightarrow> lower_char c = c"
  by (auto simp: lower_char_def Let_def)

lemma isspace_lower_char: "isspace (lower_char c) = isspace c"
proof (cases "lower_char c = c")
  case True
  then show ?thesis by simp
next
  case False
  with lower_char_cases [of c] have a: "\<not> isspace (lower_char c)"
    by (auto simp: isspace_code)
  have "\<not> isspace c"
  proof
    assume "isspace c"
    then have "lower_char c = c" by (intro lower_char_fix) (auto simp: isspace_code)
    with False show False by simp
  qed
  with a show ?thesis by simp
qed

lemma token_char_code: "token_char c \<Longrightarrow> (of_char c :: nat) < 97"
  by (auto simp: token_char_def dest: isdigit_code)


subsection \<open>The price token\<close>

lemma is_frac_cases:
  "is_frac fr =
   (fr = [] \<or> (\<exists>d. fr = [CHR ''.'', d] \<and> isdigit d)
            \<or> (\<exists>d e. fr = [CHR ''.'', d, e] \<and> isdigit d \<and> isdigit e))"
  by (cases fr rule: is_frac.cases) auto

lemma not_token_char_dot: "\<not> token_char CHR ''.''"
  by (simp add: token_char_def isdigit_def)

lemma is_frac_takeWhile: "is_frac fr \<Longrightarrow> takeWhile token_char fr = []"
  by (auto simp: is_frac_cases not_token_char_dot)

lemma is_tokenI:
  assumes "dc \<noteq> []" and "list_all token_char dc" and "is_frac fr"
  shows "is_token (dc @ fr)"
proof -
  have "takeWhile token_char (dc @ fr) = dc @ takeWhile token_char fr"
    using assms(2) by (simp add: list_all_iff)
  moreover have "dropWhile token_char (dc @ fr) = dropWhile token_char fr"
    using assms(2) by (simp add: list_all_iff)
  moreover have "dropWhile token_char fr = fr"
    using is_frac_takeWhile [OF assms(3)]
    by (metis takeWhile_dropWhile_id append_Nil)
  ultimately show ?thesis
    using assms by (simp add: is_token_def is_frac_takeWhile)
qed

lemma is_tokenD:
  assumes "is_token t"
  shows "\<exists>dc fr. t = dc @ fr \<and> dc \<noteq> [] \<and> list_all token_char dc \<and> is_frac fr"
proof -
  have "t = takeWhile token_char t @ dropWhile token_char t" by simp
  moreover have "list_all token_char (takeWhile token_char t)"
    by (auto simp: list_all_iff dest: set_takeWhileD)
  ultimately show ?thesis using assms unfolding is_token_def by blast
qed

lemma in_rx_frac:
  "((c', r) \<in> set (rx (Opt (Seq (Cls (\<lambda>c. c = CHR ''.'')) (Seq (Cls isdigit) (Opt (Cls isdigit)))))
                    (c, s))) =
   (c' = c \<and> (\<exists>fr. s = fr @ r \<and> is_frac fr))"
  by (auto simp: in_rx is_frac_cases simp del: rx.simps)

lemma in_rx_token:
  "((c', r) \<in> set (rx token_re (c, s))) = (c' = c \<and> (\<exists>t. s = t @ r \<and> is_token t))"
proof
  assume "(c', r) \<in> set (rx token_re (c, s))"
  then obtain dc fr where "c' = c" "s = dc @ fr @ r" "dc \<noteq> []" "list_all token_char dc" "is_frac fr"
    unfolding token_re_def in_rx_Seq token_char_def [symmetric, abs_def]
    by (auto simp: in_rx_Plus in_rx_frac simp del: rx.simps)
  then show "c' = c \<and> (\<exists>t. s = t @ r \<and> is_token t)"
    by (auto intro!: exI [of _ "dc @ fr"] is_tokenI)
next
  assume "c' = c \<and> (\<exists>t. s = t @ r \<and> is_token t)"
  then obtain t where c: "c' = c" and s: "s = t @ r" and t: "is_token t" by blast
  from is_tokenD [OF t] obtain dc fr
    where d: "t = dc @ fr" "dc \<noteq> []" "list_all token_char dc" "is_frac fr" by blast
  have 1: "(c, fr @ r) \<in> set (rx (Plus (\<lambda>c. isdigit c \<or> c = CHR '','')) (c, s))"
    unfolding in_rx_Plus token_char_def [symmetric, abs_def] using d s by auto
  have 2: "(c, r) \<in> set (rx (Opt (Seq (Cls (\<lambda>c. c = CHR ''.'')) (Seq (Cls isdigit) (Opt (Cls isdigit)))))
                    (c, fr @ r))"
    unfolding in_rx_frac using d by auto
  show "(c', r) \<in> set (rx token_re (c, s))"
    unfolding token_re_def in_rx_Seq using 1 2 c by blast
qed

subsection \<open>The two patterns of the program\<close>

lemma item_re_complete:
  assumes "p \<noteq> []" and "CHR 0x0A \<notin> set p" and "is_token t"
  shows "([(2, t), (1, p)], []) \<in> set (rx item_re ([], p @ t))"
proof -
  have 1: "([(1, p)], t) \<in> set (rx (Group 1 (PlusLazy (\<lambda>c. c \<noteq> CHR 0x0A))) ([], p @ t))"
    unfolding in_rx_Group in_rx_PlusLazy using assms(1,2) by (auto simp: list_all_iff)
  have 2: "([(1, p)], t) \<in> set (rx (Star isspace) ([(1, p)], t))"
    unfolding in_rx_Star by simp
  have 3: "([(1, p)], t) \<in> set (rx (Opt (Cls (\<lambda>c. c = CHR ''.'' \<or> c = CHR '':'' \<or> rupee c \<or> isspace c)))
                                  ([(1, p)], t))"
    unfolding in_rx_Opt by simp
  have 4: "([(1, p)], t) \<in> set (rx (Star (\<lambda>c. c = CHR '','' \<or> isspace c)) ([(1, p)], t))"
    unfolding in_rx_Star by simp
  have 5: "([(2, t), (1, p)], []) \<in> set (rx (Group 2 token_re) ([(1, p)], t))"
    unfolding in_rx_Group in_rx_token using assms(3) by simp
  have 6: "([(2, t), (1, p)], []) \<in> set (rx Eol ([(2, t), (1, p)], []))"
    unfolding in_rx_Eol by simp
  show ?thesis
    unfolding item_re_def in_rx_Seq using 1 2 3 4 5 6 by blast
qed

lemma item_re_sound:
  assumes "(c', r) \<in> set (rx item_re ([], s))"
  shows "\<exists>p t. c' = [(2, t), (1, p)] \<and> is_token t \<and> p \<noteq> []"
  using assms unfolding item_re_def in_rx_Seq in_rx_Group in_rx_token in_rx_Eol
    in_rx_Star in_rx_PlusLazy in_rx_Opt in_rx_Cls
  by auto

lemma re_match_item_token:
  assumes "re_match item_re s = Some m"
  shows "is_token (group m 2) \<and> group m 1 \<noteq> []"
proof -
  from re_match_Some [OF assms] obtain r where "(m, r) \<in> set (rx item_re ([], s))" by blast
  from item_re_sound [OF this] show ?thesis by (auto simp: group_def)
qed

lemma keyword_sound:
  assumes "(c', r) \<in> set (rx (Alt (Lit ''total'') (Alt (Lit ''sum'') (Alt (Lit ''amt'') (Lit ''balance''))))
                      (c, s))"
  shows "c' = c \<and> (\<exists>w. s = w @ r \<and> w \<noteq> [])"
  using assms unfolding in_rx_Alt by (auto dest!: in_rx_Lit)

lemma total_re_sound:
  assumes "(c', r) \<in> set (rx total_re (c, q))"
  shows "\<exists>pre t. q = pre @ t @ r \<and> pre \<noteq> [] \<and> is_token t \<and> (r = [] \<or> r = [CHR 0x0A])"
proof -
  from assms obtain c1 r1 c2 r2 where
    k: "(c1, r1) \<in> set (rx (Alt (Lit ''total'') (Alt (Lit ''sum'') (Alt (Lit ''amt'') (Lit ''balance''))))
                      (c, q))"
    and m: "(c2, r2) \<in> set (rx (Seq (Star isspace) (Seq (Opt (Cls (\<lambda>c. c = CHR '':'' \<or> rupee c)))
                      (Star isspace))) (c1, r1))"
    and t: "(c', r) \<in> set (rx (Seq (Group 1 token_re) Eol) (c2, r2))"
    unfolding total_re_def in_rx_Seq by blast
  from keyword_sound [OF k] obtain w where w: "q = w @ r1" "w \<noteq> []" by blast
  from rx_suffix [OF m] obtain u where u: "r1 = u @ r2" by blast
  from t obtain tok where tok: "r2 = tok @ r" "is_token tok" "r = [] \<or> r = [CHR 0x0A]"
    unfolding in_rx_Seq in_rx_Group in_rx_token in_rx_Eol by auto
  show ?thesis
    using w u tok by (intro exI [of _ "w @ u"] exI [of _ tok]) simp
qed

lemma isdigit_low: "isdigit c \<Longrightarrow> (of_char c :: nat) < 97"
  by (auto simp: isdigit_def)

lemma is_token_low:
  assumes "is_token t" and "x \<in> set t"
  shows "(of_char x :: nat) < 97"
proof -
  from is_tokenD [OF assms(1)] obtain dc fr
    where d: "t = dc @ fr" "list_all token_char dc" "is_frac fr" by blast
  have "\<forall>y\<in>set dc. (of_char y :: nat) < 97"
    using d(2) by (simp add: list_all_iff token_char_code)
  moreover have "\<forall>y\<in>set fr. (of_char y :: nat) < 97"
    using d(3) by (auto simp: is_frac_cases isdigit_low)
  ultimately show ?thesis using assms(2) d(1) by auto
qed

lemma lower_eq_low:
  assumes "map lower_char u = t" and "\<forall>x\<in>set t. (of_char x :: nat) < 97"
  shows "u = t"
proof -
  have "\<forall>a\<in>set u. lower_char a = a"
  proof
    fix a assume "a \<in> set u"
    then have "lower_char a \<in> set t" using assms(1) by auto
    then have "(of_char (lower_char a) :: nat) < 97" using assms(2) by blast
    then show "lower_char a = a" by (rule lower_char_low)
  qed
  then have "map lower_char u = u" by (simp add: map_idI)
  with assms(1) show ?thesis by simp
qed

lemma lower_newline: "CHR 0x0A \<in> set (lower s) \<Longrightarrow> CHR 0x0A \<in> set s"
proof -
  assume "CHR 0x0A \<in> set (lower s)"
  then obtain x where "x \<in> set s" "lower_char x = CHR 0x0A" by (auto simp: lower_def)
  moreover from this have "lower_char x = x" by (intro lower_char_low) simp
  ultimately show ?thesis by simp
qed

lemma total_match_shape:
  assumes nl: "CHR 0x0A \<notin> set line" and tm: "re_search total_re (lower line) = Some c"
  shows "\<exists>p pre t. lower line = p @ pre @ t \<and> pre \<noteq> [] \<and> is_token t"
proof -
  from re_search_Some [OF tm] obtain p q where pq: "lower line = p @ q" "re_match total_re q = Some c"
    by blast
  from re_match_Some [OF pq(2)] obtain r where "(c, r) \<in> set (rx total_re ([], q))" by blast
  from total_re_sound [OF this] obtain pre t where
    q: "q = pre @ t @ r" "pre \<noteq> []" "is_token t" "r = [] \<or> r = [CHR 0x0A]" by blast
  have "CHR 0x0A \<notin> set (lower line)" using nl lower_newline by blast
  moreover have "set r \<subseteq> set (lower line)" unfolding pq(1) q(1) by auto
  ultimately have r: "r = []" using q(4) by auto
  have "lower line = p @ pre @ t" using pq(1) q(1) r by simp
  with q show ?thesis by blast
qed


lemma lower_suffix_token:
  assumes "lower line = p @ pre @ t" and "pre \<noteq> []" and "is_token t"
  shows "\<exists>u. line = u @ t \<and> u \<noteq> []"
proof -
  have "map lower_char line = (p @ pre) @ t"
    using assms(1) by (simp add: lower_def)
  then obtain u v where uv: "line = u @ v" "p @ pre = map lower_char u" "t = map lower_char v"
    by (auto simp only: map_eq_append_conv)
  have low: "\<forall>x\<in>set t. (of_char x :: nat) < 97"
    using is_token_low [OF assms(3)] by blast
  have v: "v = t" by (rule lower_eq_low [OF uv(3) [symmetric] low])
  have u: "u \<noteq> []" using uv(2) assms(2) by auto
  show ?thesis using uv(1) v u by blast
qed


lemma total_match_implies_item_match:
  assumes nl: "CHR 0x0A \<notin> set line" and tm: "re_search total_re (lower line) = Some c"
  shows "re_match item_re line \<noteq> None"
proof -
  from total_match_shape [OF nl tm] obtain p pre t
    where a: "lower line = p @ pre @ t" "pre \<noteq> []" "is_token t" by blast
  from lower_suffix_token [OF a] obtain u where u: "line = u @ t" "u \<noteq> []" by blast
  have "CHR 0x0A \<notin> set u" using nl u(1) by simp
  from item_re_complete [OF u(2) this a(3)]
  have "set (rx item_re ([], line)) \<noteq> {}" using u(1) by auto
  then show ?thesis by (simp add: re_match_None)
qed

subsection \<open>The loop\<close>

lemma float_py_error: "float_py s = Inl e \<Longrightarrow> e = ValueError"
  by (auto simp: float_py_def Let_def split: list.splits if_splits)

lemma item_branch_cases:
  "item_branch fadd st line m = Inr st
   \<or> item_branch fadd st line m = Inr (print (PriceParseFail line (remove_commas (group m 2))) st)
   \<or> (\<exists>pr. float_py (remove_commas (group m 2)) = Inr pr \<and> 1 / 100 \<le> pr \<and> pr \<le> 100000 \<and>
        item_branch fadd st line m =
          Inr (st\<lparr>items := items st @ [\<lparr>name = strip (group m 1), price = pr\<rparr>],
                  total := fadd (total st) pr,
                  category_totals :=
                    dict_set (category_totals st) (categorize (strip (group m 1)))
                      (fadd (dict_get (category_totals st) (categorize (strip (group m 1))) 0) pr)\<rparr>))"
proof (cases "float_py (remove_commas (group m 2))")
  case (Inl e)
  with float_py_error [OF Inl] show ?thesis by (simp add: item_branch_def Let_def)
next
  case (Inr pr)
  then show ?thesis by (simp add: item_branch_def Let_def)
qed

lemma total_branch_None:
  "re_search total_re (lower line) = None \<Longrightarrow> total_branch st line = Inr (print (NoItemMatch line) st)"
  by (simp add: total_branch_def)

lemma total_branch_ok: "\<exists>st'. total_branch st line = Inr st'"
proof (cases "re_search total_re (lower line)")
  case None
  then show ?thesis by (simp add: total_branch_def)
next
  case (Some tm)
  show ?thesis
  proof (cases "float_py (remove_commas (group tm 1))")
    case (Inl e)
    with float_py_error [OF Inl] Some show ?thesis by (simp add: total_branch_def)
  next
    case (Inr v)
    with Some show ?thesis by (simp add: total_branch_def)
  qed
qed

lemma process_line_ok: "\<exists>st'. process_line fadd st l = Inr st'"
proof -
  from item_branch_cases have "\<And>m. \<exists>st'. item_branch fadd st (strip l) m = Inr st'" by metis
  with total_branch_ok show ?thesis
    by (auto simp: process_line_def Let_def split: option.splits)
qed




lemma split_no_sep: "l \<in> set (split sep s) \<Longrightarrow> sep \<notin> set l"
  by (induction s arbitrary: l) (auto split: if_splits list.splits)

lemma set_strip: "set (strip s) \<subseteq> set s"
proof -
  have "set (strip s) = set (dropWhile isspace (rev (dropWhile isspace s)))"
    by (simp add: strip_def)
  also have "\<dots> \<subseteq> set (rev (dropWhile isspace s))" by (rule set_dropWhileD [THEN subsetI])
  also have "\<dots> \<subseteq> set s" by (auto dest: set_dropWhileD)
  finally show ?thesis .
qed

lemma loop_inv_init: "loop_inv fadd init_state"
  by (simp add: loop_inv_def init_state_def)

lemma process_line_inv:
  assumes nl: "CHR 0x0A \<notin> set l" and i: "loop_inv fadd st" and p: "process_line fadd st l = Inr st'"
  shows "loop_inv fadd st'"
proof (cases "strip l = [] \<or> list_ex (\<lambda>word. sublist word (lower (strip l))) exclude_words")
  case True
  with p i show ?thesis by (auto simp: process_line_def Let_def)
next
  case False
  have nls: "CHR 0x0A \<notin> set (strip l)" using nl set_strip by blast
  show ?thesis
  proof (cases "re_match item_re (strip l)")
    case None
    with total_match_implies_item_match [OF nls] have "re_search total_re (lower (strip l)) = None"
      by (cases "re_search total_re (lower (strip l))") auto
    from total_branch_None [OF this] None False p
    have "st' = print (NoItemMatch (strip l)) st" by (simp add: process_line_def Let_def)
    with i show ?thesis by (simp add: loop_inv_def print_def)
  next
    case (Some m)
    with False p have ib: "item_branch fadd st (strip l) m = Inr st'"
      by (simp add: process_line_def Let_def)
    with item_branch_cases [of fadd st "strip l" m] i show ?thesis
      by (auto simp: loop_inv_def print_def price_ok_def)
  qed
qed

lemma process_lines_inv:
  assumes "\<forall>l\<in>set ls. CHR 0x0A \<notin> set l" and "loop_inv fadd st" and "process_lines fadd st ls = Inr st'"
  shows "loop_inv fadd st'"
  using assms
proof (induction ls arbitrary: st)
  case Nil
  then show ?case by simp
next
  case (Cons l ls)
  from process_line_ok obtain st1 where s1: "process_line fadd st l = Inr st1" by blast
  with Cons.prems have "loop_inv fadd st1" by (auto intro: process_line_inv)
  with Cons s1 show ?case by auto
qed

lemma parse_text_inv: "parse_text fadd text = Inr st \<Longrightarrow> loop_inv fadd st"
  unfolding parse_text_def
  by (rule process_lines_inv [OF _ loop_inv_init]) (auto dest: split_no_sep)

subsection \<open>Excluded words\<close>

lemma sublist_dropWhile:
  assumes "sublist w s" and "w \<noteq> []" and "\<not> P (hd w)"
  shows "sublist w (dropWhile P s)"
  using assms
proof (induction s)
  case Nil
  then show ?case by simp
next
  case (Cons x xs)
  show ?case
  proof (cases "P x")
    case False
    with Cons.prems show ?thesis by simp
  next
    case True
    from Cons.prems(1) have "prefix w (x # xs) \<or> sublist w xs"
      by (simp add: sublist_Cons_right)
    moreover have "\<not> prefix w (x # xs)"
    proof
      assume "prefix w (x # xs)"
      with Cons.prems(2) have "hd w = x" by (cases w) auto
      with True Cons.prems(3) show False by simp
    qed
    ultimately have "sublist w xs" by blast
    with Cons True show ?thesis by simp
  qed
qed

lemma sublist_strip:
  assumes "sublist w s" and "w \<noteq> []" and "\<not> isspace (hd w)" and "\<not> isspace (last w)"
  shows "sublist w (strip s)"
proof -
  have 1: "sublist w (dropWhile isspace s)"
    using assms(1,2,3) by (rule sublist_dropWhile [where P = isspace])
  then have "sublist (rev w) (rev (dropWhile isspace s))" by (simp add: sublist_rev)
  moreover have "rev w \<noteq> []" using assms(2) by simp
  moreover have "\<not> isspace (hd (rev w))" using assms(2,4) by (simp add: hd_rev)
  ultimately have "sublist (rev w) (dropWhile isspace (rev (dropWhile isspace s)))"
    by (rule sublist_dropWhile [where P = isspace])
  then have "sublist (rev (rev w)) (rev (dropWhile isspace (rev (dropWhile isspace s))))"
    by (simp only: sublist_rev)
  then show ?thesis by (simp add: strip_def)
qed

lemma lower_strip: "lower (strip s) = strip (lower s)"
proof -
  have d: "\<And>xs. map lower_char (dropWhile isspace xs) = dropWhile isspace (map lower_char xs)"
    by (simp add: dropWhile_map comp_def isspace_lower_char)
  show ?thesis
    by (simp add: lower_def strip_def rev_map [symmetric] d)
qed

lemma exclude_words_shape:
  "w \<in> set exclude_words \<Longrightarrow> w \<noteq> [] \<and> \<not> isspace (hd w) \<and> \<not> isspace (last w)"
  by (auto simp: exclude_words_def isspace_def)

lemma excluded_line_skipped:
  assumes "w \<in> set exclude_words" and "sublist w (lower l)"
  shows "process_line fadd st l = Inr st"
proof -
  from exclude_words_shape [OF assms(1)]
  have "sublist w (strip (lower l))" using assms(2) by (intro sublist_strip) auto
  then have "sublist w (lower (strip l))" by (simp add: lower_strip)
  with assms(1) have "list_ex (\<lambda>word. sublist word (lower (strip l))) exclude_words"
    by (auto simp: list_ex_iff)
  then show ?thesis by (simp add: process_line_def Let_def)
qed

subsection \<open>The result\<close>



lemma upload_image_fields:
  "upload_image fadd text now url = Inr r \<Longrightarrow>
   \<exists>st. parse_text fadd text = Inr st \<and> receipt_items r = items st \<and> receipt_total r = total st
     \<and> category_breakdown r = category_totals st
     \<and> savings_tip r = savings_tip_of (items st) (category_totals st) (total st)
     \<and> timestamp r = now \<and> image_url r = url"
  by (auto simp: upload_image_def split: sum.splits)

subsection \<open>\<open>float\<close> on the price token\<close>

lemma not_isdigit_comma: "\<not> isdigit CHR '',''"
  by (simp add: isdigit_def)

lemma not_isdigit_dot: "\<not> isdigit CHR ''.''"
  by (simp add: isdigit_def)

lemma isdigit_not_comma: "isdigit c \<Longrightarrow> c \<noteq> CHR '',''"
  using not_isdigit_comma by blast

lemma token_char_not_comma: "token_char c \<Longrightarrow> (c \<noteq> CHR '','') = isdigit c"
  using isdigit_not_comma by (auto simp: token_char_def)

lemma is_frac_no_comma: "is_frac fr \<Longrightarrow> c \<in> set fr \<Longrightarrow> c \<noteq> CHR '',''"
  by (auto simp: is_frac_cases not_isdigit_comma)

lemma remove_commas_token:
  assumes "list_all token_char dc" and "is_frac fr"
  shows "remove_commas (dc @ fr) = filter isdigit dc @ fr"
proof -
  have "filter (\<lambda>c. c \<noteq> CHR '','') dc = filter isdigit dc"
    using assms(1) token_char_not_comma by (intro filter_cong) (auto simp: list_all_iff)
  moreover have "filter (\<lambda>c. c \<noteq> CHR '','') fr = fr"
    using is_frac_no_comma [OF assms(2)] by (simp add: filter_id_conv)
  ultimately show ?thesis by (simp add: remove_commas_def)
qed

lemma float_py_cases: "float_py s = Inl ValueError \<or> (\<exists>p. float_py s = Inr p)"
  by (cases "float_py s") (auto dest: float_py_error)

lemma float_py_digits_frac:
  assumes "list_all isdigit ds" and "is_frac fr"
  shows "(float_py (ds @ fr) = Inl ValueError) = (ds = [] \<and> fr = [])"
    and "\<not> (ds = [] \<and> fr = []) \<Longrightarrow> \<exists>p. float_py (ds @ fr) = Inr p"
proof -
  note nd = not_isdigit_dot
  have tw: "takeWhile isdigit (ds @ fr) = ds"
    using assms by (auto simp: list_all_iff is_frac_cases nd takeWhile_append2)
  have dw: "dropWhile isdigit (ds @ fr) = fr"
    using assms by (auto simp: list_all_iff is_frac_cases nd dropWhile_append2)
  show "(float_py (ds @ fr) = Inl ValueError) = (ds = [] \<and> fr = [])"
    using assms(2) unfolding float_py_def tw dw Let_def
    by (auto simp: is_frac_cases)
  then show "\<not> (ds = [] \<and> fr = []) \<Longrightarrow> \<exists>p. float_py (ds @ fr) = Inr p"
    using float_py_cases [of "ds @ fr"] by blast
qed

lemma token_digit_iff:
  assumes "list_all token_char dc" and "is_frac fr"
  shows "list_ex isdigit (dc @ fr) = (\<not> (filter isdigit dc = [] \<and> fr = []))"
proof (cases "fr = []")
  case True
  then show ?thesis by (simp add: list_ex_iff filter_empty_conv)
next
  case False
  with assms(2) obtain d rest where "fr = CHR ''.'' # d # rest" "isdigit d"
    by (auto simp: is_frac_cases)
  then have "list_ex isdigit (dc @ fr)" by (simp add: list_ex_iff)
  with False show ?thesis by simp
qed

lemma float_py_token:
  assumes "is_token t"
  shows "(float_py (remove_commas t) = Inl ValueError) = (\<not> list_ex isdigit t)"
    and "list_ex isdigit t \<Longrightarrow> \<exists>p. float_py (remove_commas t) = Inr p"
proof -
  from is_tokenD [OF assms] obtain dc fr
    where d: "t = dc @ fr" "dc \<noteq> []" "list_all token_char dc" "is_frac fr" by blast
  have rc: "remove_commas t = filter isdigit dc @ fr"
    using remove_commas_token [OF d(3,4)] d(1) by simp
  have la: "list_all isdigit (filter isdigit dc)" by (simp add: list_all_iff)
  have e: "list_ex isdigit t = (\<not> (filter isdigit dc = [] \<and> fr = []))"
    using token_digit_iff [OF d(3,4)] d(1) by simp
  have f: "(float_py (remove_commas t) = Inl ValueError) = (filter isdigit dc = [] \<and> fr = [])"
    using float_py_digits_frac(1) [OF la d(4)] rc by simp
  show "(float_py (remove_commas t) = Inl ValueError) = (\<not> list_ex isdigit t)"
    using e f by blast
  show "list_ex isdigit t \<Longrightarrow> \<exists>p. float_py (remove_commas t) = Inr p"
    using float_py_digits_frac(2) [OF la d(4)] rc e by simp
qed

lemma commas_iff_no_digit:
  assumes "list_all token_char dc"
  shows "list_all (\<lambda>c. c = CHR '','') dc = (filter isdigit dc = [])"
proof -
  have h: "\<And>x. x \<in> set dc \<Longrightarrow> (x = CHR '','') = (\<not> isdigit x)"
  proof -
    fix x assume "x \<in> set dc"
    then have "token_char x" using assms by (simp add: list_all_iff)
    from token_char_not_comma [OF this] show "(x = CHR '','') = (\<not> isdigit x)" by blast
  qed
  have "(\<forall>x\<in>set dc. x = CHR '','') = (\<forall>x\<in>set dc. \<not> isdigit x)"
    using h by blast
  then show ?thesis by (simp add: list_all_iff filter_empty_conv)
qed

lemma frac_commas_iff_empty:
  assumes "is_frac fr"
  shows "list_all (\<lambda>c. c = CHR '','') fr = (fr = [])"
proof (cases "fr = []")
  case True
  then show ?thesis by simp
next
  case False
  with assms obtain d rest where "fr = CHR ''.'' # d # rest"
    by (auto simp: is_frac_cases)
  then show ?thesis by simp
qed

lemma token_all_commas:
  assumes "is_token t"
  shows "list_all (\<lambda>c. c = CHR '','') t = (\<not> list_ex isdigit t)"
proof -
  from is_tokenD [OF assms] obtain dc fr
    where d: "t = dc @ fr" "dc \<noteq> []" "list_all token_char dc" "is_frac fr" by blast
  have "list_all (\<lambda>c. c = CHR '','') t = (filter isdigit dc = [] \<and> fr = [])"
    using commas_iff_no_digit [OF d(3)] frac_commas_iff_empty [OF d(4)] d(1) by simp
  with token_digit_iff [OF d(3,4)] d(1) show ?thesis by simp
qed

section \<open>The claims\<close>

text \<open>
  Claim C1. The claim: a detected total line within 100 of the running total replaces the
  total, so that items summing to 1180 followed by a total line of 1200 give 1200. The
  program does not do so. A line \<open>Total: 1200\<close> matches the total-line pattern, but holds
  the excluded word \<open>total\<close> and is skipped: the total stays 1180. A line
  \<open>Balance 1200\<close> matches the total-line pattern too, but the item pattern takes it first
  and it becomes an item of price 1200: the total is 2380.
\<close>

theorem reconciliation_not_reached:
  "re_search total_re (lower ''Total: 1200'') = Some [(1, ''1200'')]
   \<and> parse_text (+) ''Rice 1180\<newline>Total: 1200'' =
       Inr \<lparr>items = [\<lparr>name = ''Rice'', price = 1180\<rparr>], total = 1180,
            category_totals = [(''Essentials'', 1180)], printed = []\<rparr>
   \<and> re_search total_re (lower ''Balance 1200'') = Some [(1, ''1200'')]
   \<and> parse_text (+) ''Rice 1180\<newline>Balance 1200'' =
       Inr \<lparr>items = [\<lparr>name = ''Rice'', price = 1180\<rparr>, \<lparr>name = ''Balance'', price = 1200\<rparr>],
            total = 2380,
            category_totals = [(''Essentials'', 1180), (''Other'', 1200)], printed = []\<rparr>"
  by code_simp

text \<open>
  Claim C2. For every text the loop ends with the total equal to the prices of the items
  added up from 0.0 in their order, by the addition of floats, and none of the three
  messages of the total-override branch is printed:
  every line of the text that the total-line pattern matches is matched by the item
  pattern as well, so the \<open>else\<close> branch never finds a total line.
\<close>

theorem total_branch_is_dead:
  assumes "parse_text fadd text = Inr st"
  shows "total st = foldl fadd 0 (map price (items st))
         \<and> \<not> list_ex is_total_event (printed st)
         \<and> (\<forall>l\<in>set (split (CHR 0x0A) (strip text)).
               re_search total_re (lower (strip l)) \<noteq> None \<longrightarrow>
               re_match item_re (strip l) \<noteq> None)"
proof -
  from parse_text_inv [OF assms] have "total st = foldl fadd 0 (map price (items st))"
    and "\<not> list_ex is_total_event (printed st)" by (simp_all add: loop_inv_def)
  moreover have "\<forall>l\<in>set (split (CHR 0x0A) (strip text)).
               re_search total_re (lower (strip l)) \<noteq> None \<longrightarrow>
               re_match item_re (strip l) \<noteq> None"
  proof (intro ballI impI)
    fix l assume "l \<in> set (split (CHR 0x0A) (strip text))"
      and s: "re_search total_re (lower (strip l)) \<noteq> None"
    then have "CHR 0x0A \<notin> set (strip l)" using split_no_sep set_strip by blast
    with s total_match_implies_item_match show "re_match item_re (strip l) \<noteq> None" by blast
  qed
  ultimately show ?thesis by blast
qed

theorem total_branch_is_dead_witness:
  "parse_text (+) ''Pen 20\<newline>sum 25'' =
     Inr \<lparr>items = [\<lparr>name = ''Pen'', price = 20\<rparr>, \<lparr>name = ''sum'', price = 25\<rparr>],
          total = 45, category_totals = [(''Other'', 45)], printed = []\<rparr>
   \<and> (45::rat) = foldl (+) 0 (map price [\<lparr>name = ''Pen'', price = 20\<rparr>, \<lparr>name = ''sum'', price = 25\<rparr>])
   \<and> \<not> list_ex is_total_event []
   \<and> re_search total_re (lower (strip ''sum 25'')) \<noteq> None
   \<and> re_match item_re (strip ''sum 25'') \<noteq> None"
proof -
  have h: "parse_text (+) ''Pen 20\<newline>sum 25'' =
     Inr \<lparr>items = [\<lparr>name = ''Pen'', price = 20\<rparr>, \<lparr>name = ''sum'', price = 25\<rparr>],
          total = 45, category_totals = [(''Other'', 45)], printed = []\<rparr>"
    by code_simp
  have l: "''sum 25'' \<in> set (split (CHR 0x0A) (strip ''Pen 20\<newline>sum 25''))"
    by code_simp
  have s: "re_search total_re (lower (strip ''sum 25'')) \<noteq> None"
    by code_simp
  from total_branch_is_dead [OF h] l s h show ?thesis by auto
qed

text \<open>
  Claim C3, as amended. A line that the item pattern matches, and whose numeral does not
  parse or parses to a price outside 0.01 to 100000, records no item and changes neither
  the total nor the breakdown; the total-line pattern is not tried on it and the
  no-match message is not printed. The state is unchanged, but for the parse-failure
  message when the numeral does not parse.
\<close>

theorem invalid_price_line_dropped:
  assumes "re_match item_re (strip l) = Some m"
    and "float_py (remove_commas (group m 2)) = Inl ValueError
         \<or> (\<exists>p. float_py (remove_commas (group m 2)) = Inr p \<and> \<not> (1 / 100 \<le> p \<and> p \<le> 100000))"
  shows "process_line fadd st l = Inr st
         \<or> process_line fadd st l =
             Inr (print (PriceParseFail (strip l) (remove_commas (group m 2))) st)"
proof (cases "strip l = [] \<or> list_ex (\<lambda>word. sublist word (lower (strip l))) exclude_words")
  case True
  then show ?thesis by (auto simp: process_line_def Let_def)
next
  case False
  with assms(1) have p: "process_line fadd st l = item_branch fadd st (strip l) m"
    by (simp add: process_line_def Let_def)
  from assms(2) show ?thesis
  proof
    assume "float_py (remove_commas (group m 2)) = Inl ValueError"
    then show ?thesis unfolding p by (simp add: item_branch_def Let_def)
  next
    assume "\<exists>p. float_py (remove_commas (group m 2)) = Inr p \<and> \<not> (1 / 100 \<le> p \<and> p \<le> 100000)"
    then show ?thesis unfolding p by (auto simp: item_branch_def Let_def)
  qed
qed

theorem invalid_price_line_dropped_witness:
  "re_match item_re (strip ''sum 200000'') = Some [(2, ''200000''), (1, ''sum'')]
   \<and> float_py (remove_commas (group [(2, ''200000''), (1, ''sum'')] 2)) = Inr 200000
   \<and> \<not> (1 / 100 \<le> (200000::rat) \<and> (200000::rat) \<le> 100000)
   \<and> process_line (+) init_state ''sum 200000'' = Inr init_state"
proof -
  have h: "re_match item_re (strip ''sum 200000'') = Some [(2, ''200000''), (1, ''sum'')]"
    by code_simp
  have f: "float_py (remove_commas (group [(2, ''200000''), (1, ''sum'')] 2)) = Inr 200000"
    by code_simp
  have r: "\<not> (1 / 100 \<le> (200000::rat) \<and> (200000::rat) \<le> 100000)" by simp
  have n: "process_line (+) init_state ''sum 200000''
           \<noteq> Inr (print (PriceParseFail (strip ''sum 200000'')
                           (remove_commas (group [(2, ''200000''), (1, ''sum'')] 2))) init_state)"
    by code_simp
  from f r have "float_py (remove_commas (group [(2, ''200000''), (1, ''sum'')] 2)) = Inl ValueError
         \<or> (\<exists>p. float_py (remove_commas (group [(2, ''200000''), (1, ''sum'')] 2)) = Inr p
                \<and> \<not> (1 / 100 \<le> p \<and> p \<le> 100000))" by blast
  from invalid_price_line_dropped [OF h this, where st = init_state and fadd = "(+)"] n h f r show ?thesis by blast
qed

text \<open>
  The claim as stated, that such a line goes on to the total-line attempt, fails on the
  line \<open>sum 200000\<close> read first: the item pattern matches with the price 200000, out of
  range; the total-line attempt on that line would set the total to 200000 and print two
  messages, and the loop leaves its state untouched.
\<close>

theorem out_of_range_line_skips_total_attempt:
  "re_match item_re (strip ''sum 200000'') = Some [(2, ''200000''), (1, ''sum'')]
   \<and> float_py (remove_commas (group [(2, ''200000''), (1, ''sum'')] 2)) = Inr 200000
   \<and> \<not> ((200000::rat) \<le> 100000)
   \<and> total_branch init_state (strip ''sum 200000'') =
       Inr \<lparr>items = [], total = 200000, category_totals = [],
            printed = [SettingTotal 200000, NoItemMatch ''sum 200000'']\<rparr>
   \<and> process_line (+) init_state ''sum 200000'' = Inr init_state
   \<and> process_line (+) init_state ''sum 200000'' \<noteq> total_branch init_state (strip ''sum 200000'')"
  by code_simp


text \<open>
  Claim C4. A line whose lowercased text holds one of the excluded words leaves the
  state of the loop as it was: no item, no change of the total or of the breakdown, and
  nothing printed, whatever the line ends in.
\<close>

theorem excluded_line_is_noise:
  assumes "w \<in> set exclude_words" and "sublist w (lower l)"
  shows "process_line fadd st l = Inr st"
  using assms by (rule excluded_line_skipped)

theorem excluded_line_is_noise_witness:
  "''tax'' \<in> set exclude_words \<and> sublist ''tax'' (lower ''  Sales TAX 12.50'')
   \<and> process_line (+) init_state ''  Sales TAX 12.50'' = Inr init_state"
proof -
  have w: "''tax'' \<in> set exclude_words" by (simp add: exclude_words_def)
  have s: "sublist ''tax'' (lower ''  Sales TAX 12.50'')" by code_simp
  from excluded_line_is_noise [OF w s] w s show ?thesis by simp
qed

text \<open>
  Claim C5. Every item of every result has a price from 0.01 to 100000.
\<close>

theorem item_prices_in_range:
  assumes "upload_image fadd text now url = Inr r" and "i \<in> set (receipt_items r)"
  shows "1 / 100 \<le> price i \<and> price i \<le> 100000"
proof -
  from upload_image_fields [OF assms(1)] obtain st
    where st: "parse_text fadd text = Inr st" "receipt_items r = items st" by blast
  from parse_text_inv [OF st(1)] st(2) assms(2) show ?thesis
    by (auto simp: loop_inv_def list_all_iff price_ok_def)
qed

theorem item_prices_in_range_witness:
  "upload_image (+) ''Soap 0.00\<newline>Tea 0.01\<newline>Car 100000.01'' ''now'' ''url'' =
     Inr \<lparr>username = ''madhu'', timestamp = ''now'',
          receipt_items = [\<lparr>name = ''Tea'', price = 1 / 100\<rparr>],
          receipt_total = 1 / 100, category_breakdown = [(''Other'', 1 / 100)],
          savings_tip = NoEssentials, image_url = ''url''\<rparr>
   \<and> 1 / 100 \<le> price \<lparr>name = ''Tea'', price = 1 / 100\<rparr>
   \<and> price \<lparr>name = ''Tea'', price = 1 / 100\<rparr> \<le> 100000"
proof -
  have h: "upload_image (+) ''Soap 0.00\<newline>Tea 0.01\<newline>Car 100000.01'' ''now'' ''url'' =
     Inr \<lparr>username = ''madhu'', timestamp = ''now'',
          receipt_items = [\<lparr>name = ''Tea'', price = 1 / 100\<rparr>],
          receipt_total = 1 / 100, category_breakdown = [(''Other'', 1 / 100)],
          savings_tip = NoEssentials, image_url = ''url''\<rparr>"
    by code_simp
  have "\<lparr>name = ''Tea'', price = 1 / 100\<rparr> \<in> set (receipt_items
     \<lparr>username = ''madhu'', timestamp = ''now'',
          receipt_items = [\<lparr>name = ''Tea'', price = 1 / 100\<rparr>],
          receipt_total = 1 / 100, category_breakdown = [(''Other'', 1 / 100)],
          savings_tip = NoEssentials, image_url = ''url''\<rparr>)"
    by simp
  from item_prices_in_range [OF h this] h show ?thesis by simp
qed





text \<open>
  Claim C9. Two runs on the same text, at any two clock readings and image URLs, give the
  same items, the same total and the same category breakdown.
\<close>

theorem extraction_deterministic:
  assumes "upload_image fadd text now1 url1 = Inr r1" and "upload_image fadd text now2 url2 = Inr r2"
  shows "receipt_items r1 = receipt_items r2 \<and> receipt_total r1 = receipt_total r2
         \<and> category_breakdown r1 = category_breakdown r2"
  using upload_image_fields [OF assms(1)] upload_image_fields [OF assms(2)] by auto

theorem extraction_deterministic_witness:
  "upload_image (+) ''Pizza 250'' ''monday'' ''a.png'' =
     Inr \<lparr>username = ''madhu'', timestamp = ''monday'',
          receipt_items = [\<lparr>name = ''Pizza'', price = 250\<rparr>],
          receipt_total = 250, category_breakdown = [(''Dining Out'', 250)],
          savings_tip = NoEssentials, image_url = ''a.png''\<rparr>
   \<and> upload_image (+) ''Pizza 250'' ''friday'' ''b.png'' =
     Inr \<lparr>username = ''madhu'', timestamp = ''friday'',
          receipt_items = [\<lparr>name = ''Pizza'', price = 250\<rparr>],
          receipt_total = 250, category_breakdown = [(''Dining Out'', 250)],
          savings_tip = NoEssentials, image_url = ''b.png''\<rparr>
   \<and> receipt_items \<lparr>username = ''madhu'', timestamp = ''monday'',
          receipt_items = [\<lparr>name = ''Pizza'', price = 250\<rparr>],
          receipt_total = 250, category_breakdown = [(''Dining Out'', 250)],
          savings_tip = NoEssentials, image_url = ''a.png''\<rparr>
     = receipt_items \<lparr>username = ''madhu'', timestamp = ''friday'',
          receipt_items = [\<lparr>name = ''Pizza'', price = 250\<rparr>],
          receipt_total = 250, category_breakdown = [(''Dining Out'', 250)],
          savings_tip = NoEssentials, image_url = ''b.png''\<rparr>"
proof -
  have h1: "upload_image (+) ''Pizza 250'' ''monday'' ''a.png'' =
     Inr \<lparr>username = ''madhu'', timestamp = ''monday'',
          receipt_items = [\<lparr>name = ''Pizza'', price = 250\<rparr>],
          receipt_total = 250, category_breakdown = [(''Dining Out'', 250)],
          savings_tip = NoEssentials, image_url = ''a.png''\<rparr>"
    by code_simp
  have h2: "upload_image (+) ''Pizza 250'' ''friday'' ''b.png'' =
     Inr \<lparr>username = ''madhu'', timestamp = ''friday'',
          receipt_items = [\<lparr>name = ''Pizza'', price = 250\<rparr>],
          receipt_total = 250, category_breakdown = [(''Dining Out'', 250)],
          savings_tip = NoEssentials, image_url = ''b.png''\<rparr>"
    by code_simp
  from extraction_deterministic [OF h1 h2] h1 h2 show ?thesis by simp
qed

text \<open>
  Claim C10, as amended. For a line that the item pattern matches, the price token with
  its commas removed parses exactly when the token holds a digit; \<open>float\<close> raises
  \<open>ValueError\<close> exactly when the token is made of commas alone.
\<close>

theorem price_token_parses_iff_digit:
  assumes "re_match item_re line = Some m"
  shows "(float_py (remove_commas (group m 2)) = Inl ValueError)
           = list_all (\<lambda>c. c = CHR '','') (group m 2)
         \<and> (\<exists>p. float_py (remove_commas (group m 2)) = Inr p) = list_ex isdigit (group m 2)"
proof -
  from re_match_item_token [OF assms] have t: "is_token (group m 2)" by blast
  have a: "(float_py (remove_commas (group m 2)) = Inl ValueError) = (\<not> list_ex isdigit (group m 2))"
    by (rule float_py_token(1) [OF t])
  have b: "list_ex isdigit (group m 2) \<Longrightarrow> \<exists>p. float_py (remove_commas (group m 2)) = Inr p"
    by (rule float_py_token(2) [OF t])
  have c: "(\<exists>p. float_py (remove_commas (group m 2)) = Inr p) = list_ex isdigit (group m 2)"
    using a b by (cases "list_ex isdigit (group m 2)") auto
  from a c token_all_commas [OF t] show ?thesis by simp
qed

theorem price_token_parses_iff_digit_witness:
  "re_match item_re ''Tea 1,250.5'' = Some [(2, ''1,250.5''), (1, ''Tea'')]
   \<and> float_py (remove_commas (group [(2, ''1,250.5''), (1, ''Tea'')] 2)) \<noteq> Inl ValueError
   \<and> \<not> list_all (\<lambda>c. c = CHR '','') (group [(2, ''1,250.5''), (1, ''Tea'')] 2)
   \<and> list_ex isdigit (group [(2, ''1,250.5''), (1, ''Tea'')] 2)"
proof -
  have h: "re_match item_re ''Tea 1,250.5'' = Some [(2, ''1,250.5''), (1, ''Tea'')]"
    by code_simp
  have d: "list_ex isdigit (group [(2, ''1,250.5''), (1, ''Tea'')] 2)"
    by code_simp
  from price_token_parses_iff_digit [OF h] h d show ?thesis by auto
qed

text \<open>
  The claim as stated, that the handler of the parse failure never runs, fails on the line
  \<open>abc ,\<close>: the item pattern matches with the token \<open>,\<close>, the empty string does not
  parse, and the loop prints the parse-failure message.
\<close>

theorem price_parse_failure_reached:
  "re_match item_re ''abc ,'' = Some [(2, '',''), (1, ''abc'')]
   \<and> float_py (remove_commas (group [(2, '',''), (1, ''abc'')] 2)) = Inl ValueError
   \<and> process_line (+) init_state ''abc ,'' = Inr (print (PriceParseFail ''abc ,'' []) init_state)"
  by code_simp

end
